theory Spec2Isabelle
  imports Main
begin

section \<open>The scene heap\<close>

text \<open>
  ObjectRemovalHelper.js works on JavaScript objects that are shared by reference: scene
  nodes (three.js Object3D), layers, geometries, materials and textures. Two of its
  tests compare references (\<^verbatim>\<open>obj.layer === layer\<close>) and the others compare the
  \<^verbatim>\<open>id\<close> stored in the layer, and one texture object may be held by several
  materials. The objects therefore live in an explicit store; a reference is an address.
\<close>

type_synonym layer_ref = nat
type_synonym node_ref = nat
type_synonym geometry_ref = nat
type_synonym material_ref = nat
type_synonym texture_ref = nat

text \<open>
  Modelled from the spec: the Layer class is declared outside ObjectRemovalHelper.js. The
  data model gives every layer a stable \<^verbatim>\<open>id\<close>, which is all that the helper
  reads. An id is a proper value (a string), never \<^verbatim>\<open>null\<close> or
  \<^verbatim>\<open>undefined\<close>.
\<close>

record Layer =
  layer_id :: string

text \<open>
  The value of one own enumerable property of a material, as far as
  \<^verbatim>\<open>val && val.isTexture\<close> can tell: a texture object, or anything else.
\<close>

datatype attr = Texture texture_ref | Plain

text \<open>
  A material is its list of own enumerable properties, in the order of
  \<^verbatim>\<open>Object.keys\<close>.
\<close>

type_synonym Material = "(string \<times> attr) list"

text \<open>
  The \<^verbatim>\<open>material\<close> field of a node: falsy, one material, or an array of
  materials (\<^verbatim>\<open>Array.isArray\<close>).
\<close>

datatype material_field =
  NoMaterial
  | OneMaterial material_ref
  | MaterialArray "material_ref list"

text \<open>
  A scene node. \<^verbatim>\<open>layer\<close>, \<^verbatim>\<open>link\<close> and \<^verbatim>\<open>geometry\<close> are
  \<open>None\<close> when the field is \<^verbatim>\<open>null\<close> or \<^verbatim>\<open>undefined\<close>;
  \<open>has_dispose\<close> is \<^verbatim>\<open>typeof obj.dispose === 'function'\<close>.
\<close>

record Object3D =
  layer :: "layer_ref option"
  children :: "node_ref list"
  link :: "node_ref list option"
  geometry :: "geometry_ref option"
  material :: material_field
  isScene :: bool
  has_dispose :: bool

text \<open>
  The calls the helper makes on objects of the engine. The engine's own code is not part
  of the repository: a call is recorded, in order, and has no other effect on the store.
\<close>

datatype event =
  ObjDispose node_ref
  | GeometryDispose geometry_ref
  | MaterialDispose material_ref
  | TextureDispose texture_ref
  | DispatchEvent node_ref string

record scene =
  layers :: "layer_ref \<Rightarrow> Layer"
  nodes :: "node_ref \<Rightarrow> Object3D"
  materials :: "material_ref \<Rightarrow> Material"
  trace :: "event list"

section \<open>cleanup\<close>

text \<open>
  The loop of \<^verbatim>\<open>disposeSingleMaterialAndTextures\<close> over
  \<^verbatim>\<open>Object.keys(material)\<close>: the property is read by its key, and disposed
  when it is a texture.
\<close>

fun dispose_textures :: "Material \<Rightarrow> string list \<Rightarrow> event list" where
  "dispose_textures mat [] = []"
| "dispose_textures mat (key # keys) =
     (case map_of mat key of
        Some (Texture t) \<Rightarrow> TextureDispose t # dispose_textures mat keys
      | _ \<Rightarrow> dispose_textures mat keys)"

definition disposeSingleMaterialAndTextures :: "scene \<Rightarrow> material_ref \<Rightarrow> event list" where
  "disposeSingleMaterialAndTextures s m =
     MaterialDispose m # dispose_textures (materials s m) (map fst (materials s m))"

text \<open>The calls of the body of \<^verbatim>\<open>cleanup\<close>, after the layer has been cleared.\<close>

definition cleanup_calls :: "scene \<Rightarrow> node_ref \<Rightarrow> event list" where
  "cleanup_calls s obj =
     (let n = nodes s obj in
      if \<not> isScene n \<and> has_dispose n then [ObjDispose obj]
      else
        (case geometry n of None \<Rightarrow> [] | Some g \<Rightarrow> [GeometryDispose g])
        @ (case material n of
             NoMaterial \<Rightarrow> []
           | MaterialArray ms \<Rightarrow> concat (map (disposeSingleMaterialAndTextures s) ms)
           | OneMaterial m \<Rightarrow> disposeSingleMaterialAndTextures s m)
        @ [DispatchEvent obj ''dispose''])"

definition cleanup :: "node_ref \<Rightarrow> scene \<Rightarrow> scene" where
  "cleanup obj s =
     (let s1 = s\<lparr>nodes := (nodes s)(obj := (nodes s obj)\<lparr>layer := None\<rparr>)\<rparr>
      in s1\<lparr>trace := trace s1 @ cleanup_calls s1 obj\<rparr>)"

section \<open>Removing children\<close>

text \<open>
  The test \<^verbatim>\<open>(c.layer && c.layer.id) === layer.id\<close>. For a node without a
  layer the left side is \<^verbatim>\<open>null\<close> or \<^verbatim>\<open>undefined\<close>, which is not
  an id.
\<close>

definition in_layer :: "scene \<Rightarrow> layer_ref \<Rightarrow> node_ref \<Rightarrow> bool" where
  "in_layer s l c =
     (case layer (nodes s c) of
        None \<Rightarrow> False
      | Some cl \<Rightarrow> layer_id (layers s cl) = layer_id (layers s l))"

text \<open>
  Modelled from the spec: \<^verbatim>\<open>Object3D.remove\<close> belongs to the engine (three.js);
  the helper needs a "children collection supporting detach-by-reference". For each
  argument in turn, the first entry of \<^verbatim>\<open>children\<close> that is this object is
  spliced out; an argument that is not a child is ignored. The parent pointer of the
  detached object and the event the engine sends from it are not part of the model.
\<close>

definition object3d_remove :: "node_ref \<Rightarrow> node_ref list \<Rightarrow> scene \<Rightarrow> scene" where
  "object3d_remove obj objs s =
     s\<lparr>nodes := (nodes s)(obj := (nodes s obj)\<lparr>children := fold remove1 objs (children (nodes s obj))\<rparr>)\<rparr>"

definition removeChildren :: "layer_ref \<Rightarrow> node_ref \<Rightarrow> scene \<Rightarrow> node_ref list \<times> scene" where
  "removeChildren l obj s =
     (let toRemove = filter (in_layer s l) (children (nodes s obj))
      in (toRemove, object3d_remove obj toRemove s))"

definition removeChildrenAndCleanup :: "layer_ref \<Rightarrow> node_ref \<Rightarrow> scene \<Rightarrow> node_ref list \<times> scene" where
  "removeChildrenAndCleanup l obj s =
     (let toRemove = filter (in_layer s l) (children (nodes s obj));
          s1 = object3d_remove obj toRemove s
      in (toRemove, if layer (nodes s1 obj) = Some l then cleanup obj s1 else s1))"

text \<open>
  \<^verbatim>\<open>for (const c of toRemove) { body(c) }\<close>, where the body may fail to return.
\<close>

primrec for_of :: "('a \<Rightarrow> scene \<Rightarrow> ('r \<times> scene) option) \<Rightarrow> 'a list \<Rightarrow> scene \<Rightarrow> scene option" where
  "for_of body [] s = Some s"
| "for_of body (c # cs) s =
     (case body c s of None \<Rightarrow> None | Some (_, s') \<Rightarrow> for_of body cs s')"

text \<open>
  The recursion follows references and the store may hold a cycle, so the function takes
  the depth of call stack that is left: \<open>None\<close> is the stack overflow of a run that
  nests deeper than that.
\<close>

primrec removeChildrenAndCleanupRecursively ::
  "nat \<Rightarrow> layer_ref \<Rightarrow> node_ref \<Rightarrow> scene \<Rightarrow> (node_ref list \<times> scene) option" where
  "removeChildrenAndCleanupRecursively 0 l obj s = None"
| "removeChildrenAndCleanupRecursively (Suc depth) l obj s =
     (let toRemove = filter (in_layer s l) (children (nodes s obj));
          toRemove = (case link (nodes s obj) of None \<Rightarrow> toRemove | Some ls \<Rightarrow> toRemove @ ls)
      in case for_of (removeChildrenAndCleanupRecursively depth l) toRemove s of
           None \<Rightarrow> None
         | Some s1 \<Rightarrow>
             (let s2 = object3d_remove obj toRemove s1
              in Some (toRemove, if in_layer s2 l obj then cleanup obj s2 else s2)))"

section \<open>Reading a run\<close>

text \<open>The calls appended to the trace between two states.\<close>

definition new_calls :: "scene \<Rightarrow> scene \<Rightarrow> event list" where
  "new_calls s s' = drop (length (trace s)) (trace s')"

text \<open>The release calls of a trace, by kind of resource, in order.\<close>

fun released_geometries :: "event list \<Rightarrow> geometry_ref list" where
  "released_geometries [] = []"
| "released_geometries (GeometryDispose g # es) = g # released_geometries es"
| "released_geometries (_ # es) = released_geometries es"

fun released_materials :: "event list \<Rightarrow> material_ref list" where
  "released_materials [] = []"
| "released_materials (MaterialDispose m # es) = m # released_materials es"
| "released_materials (_ # es) = released_materials es"

fun released_textures :: "event list \<Rightarrow> texture_ref list" where
  "released_textures [] = []"
| "released_textures (TextureDispose t # es) = t # released_textures es"
| "released_textures (_ # es) = released_textures es"

text \<open>The materials a node holds, and the texture-valued attributes of a material.\<close>

fun material_list :: "material_field \<Rightarrow> material_ref list" where
  "material_list NoMaterial = []"
| "material_list (OneMaterial m) = [m]"
| "material_list (MaterialArray ms) = ms"

definition texture_attrs :: "Material \<Rightarrow> texture_ref list" where
  "texture_attrs mat =
     concat (map (\<lambda>key. case map_of mat key of Some (Texture t) \<Rightarrow> [t] | _ \<Rightarrow> []) (map fst mat))"

text \<open>A call made on a node itself: its own \<^verbatim>\<open>dispose\<close>, or an event sent from it.\<close>

fun on_node :: "node_ref \<Rightarrow> event \<Rightarrow> bool" where
  "on_node c (ObjDispose c') = (c = c')"
| "on_node c (DispatchEvent c' ty) = (c = c')"
| "on_node c _ = False"

text \<open>The entries of the \<^verbatim>\<open>link\<close> list of a node; none when the field is not set.\<close>

definition link_list :: "scene \<Rightarrow> node_ref \<Rightarrow> node_ref list" where
  "link_list s p = (case link (nodes s p) of None \<Rightarrow> [] | Some ls \<Rightarrow> ls)"

text \<open>
  A scene is ranked when every child and every link entry of a node has a smaller rank
  than the node: the store holds no cycle of children and links, as in a tree with
  cross-links to further nodes.
\<close>

definition ranked :: "(node_ref \<Rightarrow> nat) \<Rightarrow> scene \<Rightarrow> bool" where
  "ranked rank s =
     (\<forall>p. \<forall>c\<in>set (children (nodes s p)) \<union> set (link_list s p). rank c < rank p)"









section \<open>What a removal may change\<close>

text \<open>
  The relation between the store before and after a run of a removal for the layer
  \<open>l\<close>, in four parts. A child is kept by its parent when it is neither in the
  layer nor an entry of the link list of the parent.
\<close>

definition kept :: "scene \<Rightarrow> layer_ref \<Rightarrow> node_ref \<Rightarrow> node_ref \<Rightarrow> bool" where
  "kept s l p c \<longleftrightarrow> \<not> in_layer s l c \<and> c \<notin> set (link_list s p)"

definition same_fields :: "scene \<Rightarrow> scene \<Rightarrow> bool" where
  "same_fields s s' \<longleftrightarrow>
     layers s' = layers s \<and> materials s' = materials s \<and>
     (\<forall>p. link (nodes s' p) = link (nodes s p)
        \<and> geometry (nodes s' p) = geometry (nodes s p)
        \<and> material (nodes s' p) = material (nodes s p)
        \<and> isScene (nodes s' p) = isScene (nodes s p)
        \<and> has_dispose (nodes s' p) = has_dispose (nodes s p))"

definition layers_cleared :: "layer_ref \<Rightarrow> scene \<Rightarrow> scene \<Rightarrow> bool" where
  "layers_cleared l s s' \<longleftrightarrow>
     (\<forall>p. layer (nodes s' p) = layer (nodes s p)
        \<or> (in_layer s l p \<and> layer (nodes s' p) = None
            \<and> (\<exists>e\<in>set (new_calls s s'). on_node p e)))"

definition children_detached :: "layer_ref \<Rightarrow> scene \<Rightarrow> scene \<Rightarrow> bool" where
  "children_detached l s s' \<longleftrightarrow>
     (\<forall>p. filter (kept s l p) (children (nodes s' p)) = filter (kept s l p) (children (nodes s p))
        \<and> set (children (nodes s' p)) \<subseteq> set (children (nodes s p))
        \<and> (distinct (children (nodes s p)) \<longrightarrow> distinct (children (nodes s' p))))"

definition calls_added :: "layer_ref \<Rightarrow> scene \<Rightarrow> scene \<Rightarrow> bool" where
  "calls_added l s s' \<longleftrightarrow>
     (\<exists>calls. trace s' = trace s @ calls
        \<and> (\<forall>e\<in>set calls. \<exists>n. in_layer s l n \<and> e \<in> set (cleanup_calls s n)))"

definition frame :: "layer_ref \<Rightarrow> scene \<Rightarrow> scene \<Rightarrow> bool" where
  "frame l s s' \<longleftrightarrow>
     same_fields s s' \<and> layers_cleared l s s' \<and> children_detached l s s' \<and> calls_added l s s'"

section \<open>Example scenes\<close>

definition plain_node :: Object3D where
  "plain_node =
     \<lparr>layer = None, children = [], link = None, geometry = None,
      material = NoMaterial, isScene = False, has_dispose = False\<rparr>"

text \<open>Layers 1 and 3 are two objects with the same id; layer 2 has another id.\<close>

definition example_layers :: "layer_ref \<Rightarrow> Layer" where
  "example_layers =
     (\<lambda>_. \<lparr>layer_id = ''none''\<rparr>)
       (1 := \<lparr>layer_id = ''L1''\<rparr>, 2 := \<lparr>layer_id = ''L2''\<rparr>, 3 := \<lparr>layer_id = ''L1''\<rparr>)"

text \<open>Materials 20 and 21 share the texture 30.\<close>

definition example_materials :: "material_ref \<Rightarrow> Material" where
  "example_materials =
     (\<lambda>_. [])
       (20 := [(''map'', Texture 30), (''opacity'', Plain)],
        21 := [(''map'', Texture 30), (''alphaMap'', Texture 31)])"

text \<open>
  Node 0, of layer 1, owns a geometry and two materials; its children are node 1 (layer 1),
  node 2 (layer 2) and node 3 (no layer).
\<close>

definition flat_scene :: scene where
  "flat_scene =
     \<lparr>layers = example_layers,
      nodes = (\<lambda>_. plain_node)
        (0 := plain_node\<lparr>layer := Some 1, children := [1, 2, 3], geometry := Some 10,
                         material := MaterialArray [20, 21]\<rparr>,
         1 := plain_node\<lparr>layer := Some 1\<rparr>,
         2 := plain_node\<lparr>layer := Some 2\<rparr>),
      materials = example_materials,
      trace = []\<rparr>"

text \<open>The same scene, with node 0 in layer 3 and exposing a \<^verbatim>\<open>dispose\<close> function.\<close>

definition disposable_scene :: scene where
  "disposable_scene =
     flat_scene\<lparr>nodes := (nodes flat_scene)
       (0 := (nodes flat_scene 0)\<lparr>layer := Some 3, has_dispose := True\<rparr>)\<rparr>"

text \<open>
  Node 0 (no layer) has the child 1 (layer 1, one material); the link list of node 1 holds
  node 2 (layer 2, with a geometry), which is no child of node 1.
\<close>

definition linked_scene :: scene where
  "linked_scene =
     \<lparr>layers = example_layers,
      nodes = (\<lambda>_. plain_node)
        (0 := plain_node\<lparr>children := [1]\<rparr>,
         1 := plain_node\<lparr>layer := Some 1, link := Some [2], material := OneMaterial 20\<rparr>,
         2 := plain_node\<lparr>layer := Some 2, geometry := Some 11\<rparr>),
      materials = example_materials,
      trace = []\<rparr>"

text \<open>Node 0 (layer 1) holds node 2 (layer 2) both as a child and as a link entry.\<close>

definition link_child_scene :: scene where
  "link_child_scene =
     \<lparr>layers = example_layers,
      nodes = (\<lambda>_. plain_node)
        (0 := plain_node\<lparr>layer := Some 1, children := [1, 2], link := Some [2]\<rparr>,
         1 := plain_node\<lparr>layer := Some 1\<rparr>,
         2 := plain_node\<lparr>layer := Some 2, geometry := Some 11\<rparr>),
      materials = example_materials,
      trace = []\<rparr>"





definition example_rank :: "node_ref \<Rightarrow> nat" where
  "example_rank n = (if n = 0 then 2 else if n = 1 then 1 else 0)"

section \<open>Detaching by reference\<close>

lemma fold_remove1_filter_aux:
  "\<forall>y\<in>set pre. \<not> P y \<Longrightarrow>
     fold remove1 (filter P xs) (pre @ xs) = pre @ filter (\<lambda>x. \<not> P x) xs"
proof (induction xs arbitrary: pre)
  case Nil
  then show ?case by simp
next
  case (Cons x xs)
  show ?case
  proof (cases "P x")
    case True
    with Cons.prems have "x \<notin> set pre" by auto
    then have "remove1 x (pre @ x # xs) = pre @ xs" by (simp add: remove1_append)
    with True Cons.IH[OF Cons.prems] show ?thesis by simp
  next
    case False
    with Cons.prems have "\<forall>y\<in>set (pre @ [x]). \<not> P y" by simp
    from Cons.IH[OF this] False show ?thesis by simp
  qed
qed

lemma fold_remove1_filter: "fold remove1 (filter P xs) xs = filter (\<lambda>x. \<not> P x) xs"
  using fold_remove1_filter_aux[of "[]" P xs] by simp

lemma removeChildren_eq:
  "removeChildren l obj s =
     (filter (in_layer s l) (children (nodes s obj)),
      s\<lparr>nodes := (nodes s)(obj := (nodes s obj)
           \<lparr>children := filter (\<lambda>c. \<not> in_layer s l c) (children (nodes s obj))\<rparr>)\<rparr>)"
  by (simp add: removeChildren_def object3d_remove_def fold_remove1_filter)

lemma in_layer_has_layer: "in_layer s l c \<Longrightarrow> layer (nodes s c) \<noteq> None"
  by (auto simp: in_layer_def split: option.splits)

lemmas example_defs = flat_scene_def disposable_scene_def linked_scene_def
  link_child_scene_def example_layers_def example_materials_def plain_node_def

section \<open>removeChildren\<close>

text \<open>
  C6: removeChildren returns exactly the direct children of the node whose layer has the
  id of the target layer, in their original order; afterwards the child collection of the
  node holds the other children, in their original order. A child without a layer
  reference is never selected and stays.
\<close>

theorem removeChildren_selects:
  assumes "removeChildren l obj s = (rs, s')"
  shows "rs = filter (in_layer s l) (children (nodes s obj))
       \<and> children (nodes s' obj) = filter (\<lambda>c. \<not> in_layer s l c) (children (nodes s obj))
       \<and> (\<forall>c\<in>set (children (nodes s obj)).
            layer (nodes s c) = None \<longrightarrow> c \<notin> set rs \<and> c \<in> set (children (nodes s' obj)))"
  using assms by (auto simp: removeChildren_eq dest: in_layer_has_layer)

theorem removeChildren_selects_witness:
  "fst (removeChildren 1 0 flat_scene) = [1]
   \<and> children (nodes (snd (removeChildren 1 0 flat_scene)) 0) = [2, 3]"
  using removeChildren_selects [of 1 0 flat_scene
      "fst (removeChildren 1 0 flat_scene)" "snd (removeChildren 1 0 flat_scene)"]
  by (simp add: in_layer_def example_defs)

text \<open>
  C7: removeChildren makes no call at all on a geometry, a material, a texture or a node
  (the trace is unchanged), changes no material and no layer, geometry or material field
  of any node, and the children of the node that do not match the target layer are the
  same afterwards, in number, content and order.
\<close>

theorem removeChildren_frame:
  "trace (snd (removeChildren l obj s)) = trace s
   \<and> materials (snd (removeChildren l obj s)) = materials s
   \<and> filter (\<lambda>c. \<not> in_layer s l c) (children (nodes (snd (removeChildren l obj s)) obj))
       = filter (\<lambda>c. \<not> in_layer s l c) (children (nodes s obj))
   \<and> layer (nodes (snd (removeChildren l obj s)) c) = layer (nodes s c)
   \<and> geometry (nodes (snd (removeChildren l obj s)) c) = geometry (nodes s c)
   \<and> material (nodes (snd (removeChildren l obj s)) c) = material (nodes s c)"
  by (simp add: removeChildren_eq)

section \<open>cleanup\<close>

text \<open>
  C8: after cleanup the layer reference of the node is cleared, on every path: the layer
  is cleared before the paths part.
\<close>

theorem cleanup_clears_layer: "layer (nodes (cleanup obj s) obj) = None"
  by (simp add: cleanup_def Let_def)

section \<open>removeChildrenAndCleanup\<close>

text \<open>
  C9: when the layer reference of the node is not the target layer object itself,
  removeChildrenAndCleanup is removeChildren: the same list is returned, the same store
  results, no call is made and no layer reference is cleared.
\<close>

theorem removeChildrenAndCleanup_other_layer:
  assumes "layer (nodes s obj) \<noteq> Some l"
  shows "removeChildrenAndCleanup l obj s = removeChildren l obj s
       \<and> trace (snd (removeChildrenAndCleanup l obj s)) = trace s
       \<and> (\<forall>c. layer (nodes (snd (removeChildrenAndCleanup l obj s)) c) = layer (nodes s c))"
  using assms
  by (simp add: removeChildrenAndCleanup_def removeChildren_def object3d_remove_def Let_def)

theorem removeChildrenAndCleanup_other_layer_witness:
  "layer (nodes flat_scene 0) \<noteq> Some 3
   \<and> removeChildrenAndCleanup 3 0 flat_scene = removeChildren 3 0 flat_scene
   \<and> fst (removeChildrenAndCleanup 3 0 flat_scene) = [1]
   \<and> trace (snd (removeChildrenAndCleanup 3 0 flat_scene)) = []"
proof -
  have h: "layer (nodes flat_scene 0) \<noteq> Some 3"
    by (simp add: example_defs)
  have v: "fst (removeChildren 3 0 flat_scene) = [1]"
    by (simp add: removeChildren_eq in_layer_def example_defs)
  have t: "trace flat_scene = []"
    by (simp add: example_defs)
  from removeChildrenAndCleanup_other_layer [OF h] h v t show ?thesis
    by metis
qed

section \<open>The calls of cleanup\<close>

lemma released_geometries_append:
  "released_geometries (xs @ ys) = released_geometries xs @ released_geometries ys"
  by (induction xs rule: released_geometries.induct) simp_all

lemma released_materials_append:
  "released_materials (xs @ ys) = released_materials xs @ released_materials ys"
  by (induction xs rule: released_materials.induct) simp_all

lemma released_textures_append:
  "released_textures (xs @ ys) = released_textures xs @ released_textures ys"
  by (induction xs rule: released_textures.induct) simp_all

lemma released_textures_map: "released_textures (map TextureDispose ts) = ts"
  by (induction ts) simp_all

lemma released_materials_map: "released_materials (map TextureDispose ts) = []"
  by (induction ts) simp_all

lemma released_geometries_map: "released_geometries (map TextureDispose ts) = []"
  by (induction ts) simp_all

lemma dispose_textures_eq:
  "dispose_textures mat keys =
     map TextureDispose
       (concat (map (\<lambda>key. case map_of mat key of Some (Texture t) \<Rightarrow> [t] | _ \<Rightarrow> []) keys))"
  by (induction keys) (simp_all split: option.splits attr.splits)

lemma disposeSingleMaterialAndTextures_eq:
  "disposeSingleMaterialAndTextures s =
     (\<lambda>m. MaterialDispose m # map TextureDispose (texture_attrs (materials s m)))"
  by (rule ext) (simp add: disposeSingleMaterialAndTextures_def dispose_textures_eq texture_attrs_def)

lemma cleanup_calls_eq:
  "cleanup_calls s obj =
     (if \<not> isScene (nodes s obj) \<and> has_dispose (nodes s obj) then [ObjDispose obj]
      else (case geometry (nodes s obj) of None \<Rightarrow> [] | Some g \<Rightarrow> [GeometryDispose g])
         @ concat (map (\<lambda>m. MaterialDispose m # map TextureDispose (texture_attrs (materials s m)))
                       (material_list (material (nodes s obj))))
         @ [DispatchEvent obj ''dispose''])"
  by (cases "material (nodes s obj)")
     (simp_all add: cleanup_calls_def Let_def disposeSingleMaterialAndTextures_eq)

lemma cleanup_calls_cong:
  "geometry (nodes s' obj) = geometry (nodes s obj) \<Longrightarrow>
   material (nodes s' obj) = material (nodes s obj) \<Longrightarrow>
   isScene (nodes s' obj) = isScene (nodes s obj) \<Longrightarrow>
   has_dispose (nodes s' obj) = has_dispose (nodes s obj) \<Longrightarrow>
   materials s' = materials s \<Longrightarrow>
   cleanup_calls s' obj = cleanup_calls s obj"
  by (simp add: cleanup_calls_eq)

lemma trace_cleanup: "trace (cleanup obj s) = trace s @ cleanup_calls s obj"
  by (simp add: cleanup_def Let_def cleanup_calls_eq)

lemma new_calls_cleanup: "new_calls s (cleanup obj s) = cleanup_calls s obj"
  by (simp add: new_calls_def trace_cleanup)

lemma nodes_cleanup: "nodes (cleanup obj s) = (nodes s)(obj := (nodes s obj)\<lparr>layer := None\<rparr>)"
  by (simp add: cleanup_def Let_def)

lemma materials_cleanup: "materials (cleanup obj s) = materials s"
  by (simp add: cleanup_def Let_def)

lemma layers_cleanup: "layers (cleanup obj s) = layers s"
  by (simp add: cleanup_def Let_def)

lemma released_concat_material_calls:
  "released_materials
     (concat (map (\<lambda>m. MaterialDispose m # map TextureDispose (f m)) ms)) = ms"
  "released_textures
     (concat (map (\<lambda>m. MaterialDispose m # map TextureDispose (f m)) ms)) = concat (map f ms)"
  "released_geometries
     (concat (map (\<lambda>m. MaterialDispose m # map TextureDispose (f m)) ms)) = []"
  by (induction ms)
     (simp_all add: released_materials_append released_textures_append released_geometries_append
        released_textures_map released_materials_map released_geometries_map)

lemma on_node_cleanup_calls: "e \<in> set (cleanup_calls s obj) \<Longrightarrow> on_node c e \<Longrightarrow> c = obj"
  by (auto simp: cleanup_calls_eq split: if_splits option.splits)

text \<open>
  C5: cleanup takes the generic path exactly when the node is no scene and exposes a
  dispose function; its only call is then the dispose of the node: no geometry, material
  or texture is released and no event is sent. On the other path it releases the
  geometry when there is one, then each material followed by each texture-valued
  attribute of that material, and ends with one event of type "dispose" sent from the
  node.
\<close>

theorem cleanup_paths:
  "trace (cleanup obj s) = trace s @ new_calls s (cleanup obj s)
   \<and> new_calls s (cleanup obj s) =
     (if \<not> isScene (nodes s obj) \<and> has_dispose (nodes s obj) then [ObjDispose obj]
      else (case geometry (nodes s obj) of None \<Rightarrow> [] | Some g \<Rightarrow> [GeometryDispose g])
         @ concat (map (\<lambda>m. MaterialDispose m # map TextureDispose (texture_attrs (materials s m)))
                       (material_list (material (nodes s obj))))
         @ [DispatchEvent obj ''dispose''])"
  by (simp add: new_calls_cleanup trace_cleanup cleanup_calls_eq)


theorem cleanup_paths_witness:
  "new_calls disposable_scene (cleanup 0 disposable_scene) = [ObjDispose 0]
   \<and> new_calls flat_scene (cleanup 0 flat_scene) =
       [GeometryDispose 10, MaterialDispose 20, TextureDispose 30,
        MaterialDispose 21, TextureDispose 30, TextureDispose 31, DispatchEvent 0 ''dispose'']"
  using cleanup_paths [of 0 disposable_scene] cleanup_paths [of 0 flat_scene]
  by (simp add: texture_attrs_def example_defs)

text \<open>
  C2, as stated, fails: the node 0 of the example holds two materials that share the
  texture 30, and one cleanup releases that texture twice.
\<close>

theorem cleanup_shared_texture_counterexample:
  "count_list (trace (cleanup 0 flat_scene)) (TextureDispose 30) = 2"
  by (simp add: trace_cleanup cleanup_calls_eq texture_attrs_def example_defs)

text \<open>
  C2, amended: on the explicit path (a scene, or no dispose function) one cleanup
  releases the geometry once when there is one, each material once for each of its
  occurrences in the material field, in order, and a texture once for each
  texture-valued attribute that refers to it on each of these materials, so that a
  texture shared by two materials is released twice; on the generic path cleanup itself
  releases nothing. The layer reference is cleared.
\<close>

theorem cleanup_releases:
  "released_geometries (new_calls s (cleanup obj s)) =
     (if \<not> isScene (nodes s obj) \<and> has_dispose (nodes s obj) then []
      else case geometry (nodes s obj) of None \<Rightarrow> [] | Some g \<Rightarrow> [g])
   \<and> released_materials (new_calls s (cleanup obj s)) =
     (if \<not> isScene (nodes s obj) \<and> has_dispose (nodes s obj) then []
      else material_list (material (nodes s obj)))
   \<and> released_textures (new_calls s (cleanup obj s)) =
     (if \<not> isScene (nodes s obj) \<and> has_dispose (nodes s obj) then []
      else concat (map (\<lambda>m. texture_attrs (materials s m)) (material_list (material (nodes s obj)))))
   \<and> layer (nodes (cleanup obj s) obj) = None"
  by (simp add: new_calls_cleanup cleanup_calls_eq nodes_cleanup
        released_materials_append released_textures_append released_geometries_append
        released_concat_material_calls split: option.splits)

theorem cleanup_releases_witness:
  "released_geometries (new_calls flat_scene (cleanup 0 flat_scene)) = [10]
   \<and> released_materials (new_calls flat_scene (cleanup 0 flat_scene)) = [20, 21]
   \<and> released_textures (new_calls flat_scene (cleanup 0 flat_scene)) = [30, 30, 31]
   \<and> released_materials (new_calls disposable_scene (cleanup 0 disposable_scene)) = []"
  using cleanup_releases [of flat_scene 0] cleanup_releases [of disposable_scene 0]
  by (simp add: texture_attrs_def example_defs)

text \<open>
  C4: removeChildrenAndCleanup returns the list and detaches the children as
  removeChildren does, then cleans the node up exactly when its layer reference is the
  target layer object itself; a layer with the same id that is another object does not
  count. No other node is changed and no call is made on another node: the children,
  detached or kept, are not cleaned up.
\<close>

theorem removeChildrenAndCleanup_identity:
  "removeChildrenAndCleanup l obj s =
     (fst (removeChildren l obj s),
      if layer (nodes s obj) = Some l then cleanup obj (snd (removeChildren l obj s))
      else snd (removeChildren l obj s))
   \<and> new_calls s (snd (removeChildrenAndCleanup l obj s)) =
       (if layer (nodes s obj) = Some l then cleanup_calls s obj else [])
   \<and> (\<forall>c. c \<noteq> obj \<longrightarrow>
         nodes (snd (removeChildrenAndCleanup l obj s)) c = nodes s c
         \<and> (\<forall>e\<in>set (new_calls s (snd (removeChildrenAndCleanup l obj s))). \<not> on_node c e))"
proof -
  let ?s1 = "object3d_remove obj (filter (in_layer s l) (children (nodes s obj))) s"
  have c: "cleanup_calls ?s1 obj = cleanup_calls s obj"
    by (rule cleanup_calls_cong) (simp_all add: object3d_remove_def)
  have t: "trace ?s1 = trace s" by (simp add: object3d_remove_def)
  have l: "layer (nodes ?s1 obj) = layer (nodes s obj)" by (simp add: object3d_remove_def)
  have n: "\<And>c. c \<noteq> obj \<Longrightarrow> nodes ?s1 c = nodes s c" by (simp add: object3d_remove_def)
  show ?thesis
    using c t l n
    by (auto simp: removeChildrenAndCleanup_def removeChildren_def Let_def new_calls_def
          trace_cleanup nodes_cleanup dest: on_node_cleanup_calls)
qed

theorem removeChildrenAndCleanup_identity_witness:
  "layer_id (layers flat_scene 3) = layer_id (layers flat_scene 1)
   \<and> layer (nodes flat_scene 0) = Some 1
   \<and> new_calls flat_scene (snd (removeChildrenAndCleanup 3 0 flat_scene)) = []
   \<and> layer (nodes (snd (removeChildrenAndCleanup 3 0 flat_scene)) 0) = Some 1
   \<and> new_calls flat_scene (snd (removeChildrenAndCleanup 1 0 flat_scene)) = cleanup_calls flat_scene 0
   \<and> layer (nodes (snd (removeChildrenAndCleanup 1 0 flat_scene)) 0) = None
   \<and> layer (nodes (snd (removeChildrenAndCleanup 1 0 flat_scene)) 1) = Some 1"
proof -
  have a: "layer_id (layers flat_scene 3) = layer_id (layers flat_scene 1)"
    "layer (nodes flat_scene 0) = Some 1" "layer (nodes flat_scene 1) = Some 1"
    by (simp_all add: example_defs)
  note r3 = removeChildrenAndCleanup_identity [of 3 0 flat_scene]
  note r1 = removeChildrenAndCleanup_identity [of 1 0 flat_scene]
  have b: "layer (nodes (snd (removeChildrenAndCleanup 3 0 flat_scene)) 0) = Some 1"
    using r3 a by (simp add: removeChildren_eq)
  have c: "layer (nodes (snd (removeChildrenAndCleanup 1 0 flat_scene)) 0) = None"
    using r1 a by (simp add: removeChildren_eq nodes_cleanup)
  have "nodes (snd (removeChildrenAndCleanup 1 0 flat_scene)) 1 = nodes flat_scene 1"
    using r1 [THEN conjunct2, THEN conjunct2, rule_format, of 1] by simp
  with a have d: "layer (nodes (snd (removeChildrenAndCleanup 1 0 flat_scene)) 1) = Some 1"
    by simp
  have e: "new_calls flat_scene (snd (removeChildrenAndCleanup 3 0 flat_scene)) = []"
    using r3 [THEN conjunct2, THEN conjunct1] a by simp
  have f: "new_calls flat_scene (snd (removeChildrenAndCleanup 1 0 flat_scene))
      = cleanup_calls flat_scene 0"
    using r1 [THEN conjunct2, THEN conjunct1] a by simp
  show ?thesis using a b c d e f by blast
qed

section \<open>The recursive removal keeps the frame\<close>

lemma frame_refl: "frame l s s"
  by (simp add: frame_def same_fields_def layers_cleared_def children_detached_def calls_added_def)

lemma same_fields_trans: "same_fields s s1 \<Longrightarrow> same_fields s1 s2 \<Longrightarrow> same_fields s s2"
  by (simp add: same_fields_def)

lemma same_fields_link_list: "same_fields s s' \<Longrightarrow> link_list s' p = link_list s p"
  by (simp add: same_fields_def link_list_def)

lemma same_fields_cleanup_calls: "same_fields s s' \<Longrightarrow> cleanup_calls s' n = cleanup_calls s n"
  by (rule cleanup_calls_cong) (simp_all add: same_fields_def)

lemma in_layer_mono:
  "same_fields s s' \<Longrightarrow> layers_cleared l s s' \<Longrightarrow> in_layer s' l' c \<Longrightarrow> in_layer s l' c"
  unfolding same_fields_def layers_cleared_def in_layer_def
  by (metis option.simps(4))

lemma in_layer_same:
  "same_fields s s' \<Longrightarrow> layer (nodes s' c) = layer (nodes s c) \<Longrightarrow> in_layer s' l c = in_layer s l c"
  by (auto simp: same_fields_def in_layer_def split: option.splits)

lemma calls_added_new_calls:
  "calls_added l s s' \<Longrightarrow> trace s' = trace s @ new_calls s s'"
  by (auto simp: calls_added_def new_calls_def)

lemma calls_added_trans:
  assumes "same_fields s s1" "layers_cleared l s s1" "calls_added l s s1" "calls_added l s1 s2"
  shows "calls_added l s s2"
proof -
  from assms(3) obtain c1 where c1: "trace s1 = trace s @ c1"
    "\<forall>e\<in>set c1. \<exists>n. in_layer s l n \<and> e \<in> set (cleanup_calls s n)"
    by (auto simp: calls_added_def)
  from assms(4) obtain c2 where c2: "trace s2 = trace s1 @ c2"
    "\<forall>e\<in>set c2. \<exists>n. in_layer s1 l n \<and> e \<in> set (cleanup_calls s1 n)"
    by (auto simp: calls_added_def)
  have "\<forall>e\<in>set c2. \<exists>n. in_layer s l n \<and> e \<in> set (cleanup_calls s n)"
    using c2(2) in_layer_mono[OF assms(1,2)] same_fields_cleanup_calls[OF assms(1)] by metis
  with c1 c2 have "trace s2 = trace s @ (c1 @ c2)
      \<and> (\<forall>e\<in>set (c1 @ c2). \<exists>n. in_layer s l n \<and> e \<in> set (cleanup_calls s n))"
    by auto
  then show ?thesis unfolding calls_added_def by blast
qed

lemma new_calls_trans:
  "calls_added l s s1 \<Longrightarrow> calls_added l' s1 s2 \<Longrightarrow> new_calls s s2 = new_calls s s1 @ new_calls s1 s2"
  by (auto simp: calls_added_def new_calls_def)

lemma layers_cleared_trans:
  assumes "same_fields s s1" "layers_cleared l s s1" "layers_cleared l s1 s2"
    "calls_added l s s1" "calls_added l s1 s2"
  shows "layers_cleared l s s2"
  unfolding layers_cleared_def
proof
  fix p
  note nc = new_calls_trans[OF assms(4,5)]
  from assms(3) have "layer (nodes s2 p) = layer (nodes s1 p)
      \<or> (in_layer s1 l p \<and> layer (nodes s2 p) = None \<and> (\<exists>e\<in>set (new_calls s1 s2). on_node p e))"
    by (simp add: layers_cleared_def)
  moreover from assms(2) have "layer (nodes s1 p) = layer (nodes s p)
      \<or> (in_layer s l p \<and> layer (nodes s1 p) = None \<and> (\<exists>e\<in>set (new_calls s s1). on_node p e))"
    by (simp add: layers_cleared_def)
  ultimately show "layer (nodes s2 p) = layer (nodes s p)
      \<or> (in_layer s l p \<and> layer (nodes s2 p) = None \<and> (\<exists>e\<in>set (new_calls s s2). on_node p e))"
    using in_layer_mono[OF assms(1,2), of l p] nc by auto
qed

lemma kept_mono:
  "same_fields s s1 \<Longrightarrow> layers_cleared l s s1 \<Longrightarrow> kept s l p c \<Longrightarrow> kept s1 l p c"
  using in_layer_mono[of s s1 l l c] by (auto simp: kept_def same_fields_link_list)

lemma filter_filter_imp:
  "(\<And>x. P x \<Longrightarrow> Q x) \<Longrightarrow> filter P (filter Q xs) = filter P xs"
  by (induction xs) auto

lemma children_detached_trans:
  assumes "same_fields s s1" "layers_cleared l s s1"
    "children_detached l s s1" "children_detached l s1 s2"
  shows "children_detached l s s2"
  unfolding children_detached_def
proof (intro allI conjI)
  fix p
  have imp: "\<And>x. kept s l p x \<Longrightarrow> kept s1 l p x"
    by (rule kept_mono[OF assms(1,2)])
  have "filter (kept s l p) (children (nodes s2 p))
      = filter (kept s l p) (filter (kept s1 l p) (children (nodes s2 p)))"
    by (rule filter_filter_imp[OF imp, symmetric])
  also have "\<dots> = filter (kept s l p) (filter (kept s1 l p) (children (nodes s1 p)))"
    using assms(4) by (simp only: children_detached_def)
  also have "\<dots> = filter (kept s l p) (children (nodes s1 p))"
    by (rule filter_filter_imp[OF imp])
  also have "\<dots> = filter (kept s l p) (children (nodes s p))"
    using assms(3) by (simp add: children_detached_def)
  finally show "filter (kept s l p) (children (nodes s2 p)) = filter (kept s l p) (children (nodes s p))" .
  show "set (children (nodes s2 p)) \<subseteq> set (children (nodes s p))"
    using assms(3,4) unfolding children_detached_def by blast
  show "distinct (children (nodes s p)) \<longrightarrow> distinct (children (nodes s2 p))"
    using assms(3,4) unfolding children_detached_def by blast
qed

lemma frame_trans: "frame l s s1 \<Longrightarrow> frame l s1 s2 \<Longrightarrow> frame l s s2"
  unfolding frame_def
  using same_fields_trans layers_cleared_trans children_detached_trans calls_added_trans
  by blast


lemma fold_remove1_subset: "set (fold remove1 rs xs) \<subseteq> set xs"
proof (induction rs arbitrary: xs)
  case Nil
  show ?case by simp
next
  case (Cons r rs)
  have "set (fold remove1 rs (remove1 r xs)) \<subseteq> set (remove1 r xs)" by (rule Cons.IH)
  also have "\<dots> \<subseteq> set xs" by (rule set_remove1_subset)
  finally show ?case by simp
qed

lemma fold_remove1_distinct: "distinct xs \<Longrightarrow> distinct (fold remove1 rs xs)"
  by (induction rs arbitrary: xs) simp_all


lemma filter_fold_remove1:
  "\<forall>r\<in>set rs. \<not> K r \<Longrightarrow> filter K (fold remove1 rs xs) = filter K xs"
proof (induction rs arbitrary: xs)
  case Nil
  show ?case by simp
next
  case (Cons r rs)
  then have "\<not> K r" and rest: "\<forall>r\<in>set rs. \<not> K r" by simp_all
  have "filter K (fold remove1 (r # rs) xs) = filter K (remove1 r xs)"
    using Cons.IH[OF rest] by simp
  also have "\<dots> = remove1 r (filter K xs)" by (rule filter_remove1)
  also have "\<dots> = filter K xs" using \<open>\<not> K r\<close> by (simp add: remove1_idem)
  finally show ?case .
qed

lemma new_calls_same_trace: "trace s2 = trace s1 \<Longrightarrow> new_calls s s2 = new_calls s s1"
  by (simp add: new_calls_def)

lemma frame_object3d_remove:
  assumes f: "frame l s s1" and r: "\<forall>c\<in>set objs. \<not> kept s l obj c"
  shows "frame l s (object3d_remove obj objs s1)"
proof -
  let ?s2 = "object3d_remove obj objs s1"
  have t: "trace ?s2 = trace s1" by (simp add: object3d_remove_def)
  have sf: "same_fields s ?s2"
    using f by (simp add: frame_def same_fields_def object3d_remove_def)
  have lc: "layers_cleared l s ?s2"
    using f by (simp add: frame_def layers_cleared_def new_calls_same_trace[OF t])
       (simp add: object3d_remove_def)
  have ca: "calls_added l s ?s2"
    using f by (simp add: frame_def calls_added_def t)
  have cd1: "children_detached l s s1" using f by (simp add: frame_def)
  have cd: "children_detached l s ?s2"
    unfolding children_detached_def
  proof (intro allI)
    fix p
    show "filter (kept s l p) (children (nodes ?s2 p)) = filter (kept s l p) (children (nodes s p))
        \<and> set (children (nodes ?s2 p)) \<subseteq> set (children (nodes s p))
        \<and> (distinct (children (nodes s p)) \<longrightarrow> distinct (children (nodes ?s2 p)))"
    proof (cases "p = obj")
      case False
      then have "children (nodes ?s2 p) = children (nodes s1 p)"
        by (simp add: object3d_remove_def)
      with cd1 show ?thesis by (simp add: children_detached_def)
    next
      case True
      then have c: "children (nodes ?s2 p) = fold remove1 objs (children (nodes s1 p))"
        by (simp add: object3d_remove_def)
      from r True have "\<forall>c\<in>set objs. \<not> kept s l p c" by simp
      then have "filter (kept s l p) (children (nodes ?s2 p))
          = filter (kept s l p) (children (nodes s1 p))"
        unfolding c by (rule filter_fold_remove1)
      moreover have "set (children (nodes ?s2 p)) \<subseteq> set (children (nodes s1 p))"
        unfolding c by (rule fold_remove1_subset)
      moreover have "distinct (children (nodes s1 p)) \<longrightarrow> distinct (children (nodes ?s2 p))"
        unfolding c by (simp add: fold_remove1_distinct)
      ultimately show ?thesis
        using cd1 unfolding children_detached_def by fastforce
    qed
  qed
  from sf lc cd ca show ?thesis by (simp add: frame_def)
qed

lemma cleanup_calls_on_node: "\<exists>e\<in>set (cleanup_calls s obj). on_node obj e"
  by (simp add: cleanup_calls_eq)

lemma frame_cleanup:
  assumes "in_layer s l obj"
  shows "frame l s (cleanup obj s)"
proof -
  have sf: "same_fields s (cleanup obj s)"
    by (simp add: same_fields_def nodes_cleanup materials_cleanup layers_cleanup)
  have lc: "layers_cleared l s (cleanup obj s)"
    using assms cleanup_calls_on_node[of s obj]
    by (simp add: layers_cleared_def nodes_cleanup new_calls_cleanup)
  have cd: "children_detached l s (cleanup obj s)"
    by (simp add: children_detached_def nodes_cleanup)
  have ca: "calls_added l s (cleanup obj s)"
    unfolding calls_added_def using assms trace_cleanup[of obj s] by blast
  from sf lc cd ca show ?thesis by (simp add: frame_def)
qed

lemma for_of_frame:
  assumes body: "\<And>c s0 r s1. body c s0 = Some (r, s1) \<Longrightarrow> frame l s0 s1"
  shows "for_of body cs s = Some s' \<Longrightarrow> frame l s s'"
proof (induction cs arbitrary: s)
  case Nil
  then show ?case by (simp add: frame_refl)
next
  case (Cons c cs)
  from Cons.prems obtain r s1 where b: "body c s = Some (r, s1)" and rest: "for_of body cs s1 = Some s'"
    by (auto split: option.splits)
  from body[OF b] Cons.IH[OF rest] show ?case by (rule frame_trans)
qed

lemma candidates_not_kept:
  "\<forall>c\<in>set (filter (in_layer s l) (children (nodes s obj)) @ link_list s obj). \<not> kept s l obj c"
  by (auto simp: kept_def)

lemma in_layer_object3d_remove: "in_layer (object3d_remove obj objs s) l c = in_layer s l c"
  by (simp add: in_layer_def object3d_remove_def split: option.splits)

lemma removeChildrenAndCleanupRecursively_Suc:
  "removeChildrenAndCleanupRecursively (Suc depth) l obj s =
     (case for_of (removeChildrenAndCleanupRecursively depth l)
             (filter (in_layer s l) (children (nodes s obj)) @ link_list s obj) s of
        None \<Rightarrow> None
      | Some s1 \<Rightarrow>
          Some (filter (in_layer s l) (children (nodes s obj)) @ link_list s obj,
                if in_layer s1 l obj
                then cleanup obj (object3d_remove obj
                       (filter (in_layer s l) (children (nodes s obj)) @ link_list s obj) s1)
                else object3d_remove obj
                       (filter (in_layer s l) (children (nodes s obj)) @ link_list s obj) s1))"
  by (simp add: Let_def link_list_def in_layer_def object3d_remove_def
        split: option.splits)

lemma removeChildrenAndCleanupRecursively_frame:
  "removeChildrenAndCleanupRecursively depth l obj s = Some (r, s') \<Longrightarrow> frame l s s'"
proof (induction depth arbitrary: obj s r s')
  case 0
  then show ?case by simp
next
  case (Suc depth)
  let ?cs = "filter (in_layer s l) (children (nodes s obj)) @ link_list s obj"
  from Suc.prems obtain s1 where
    loop: "for_of (removeChildrenAndCleanupRecursively depth l) ?cs s = Some s1" and
    s': "s' = (if in_layer s1 l obj then cleanup obj (object3d_remove obj ?cs s1)
              else object3d_remove obj ?cs s1)"
    unfolding removeChildrenAndCleanupRecursively_Suc by (auto split: option.splits)
  have f1: "frame l s s1"
    using loop by (rule for_of_frame[rotated]) (rule Suc.IH)
  have f2: "frame l s (object3d_remove obj ?cs s1)"
    using f1 candidates_not_kept by (rule frame_object3d_remove)
  show ?case
  proof (cases "in_layer s1 l obj")
    case False
    with s' f2 show ?thesis by simp
  next
    case True
    then have "in_layer (object3d_remove obj ?cs s1) l obj"
      by (simp add: in_layer_object3d_remove)
    then have "frame l (object3d_remove obj ?cs s1) (cleanup obj (object3d_remove obj ?cs s1))"
      by (rule frame_cleanup)
    with f2 have "frame l s (cleanup obj (object3d_remove obj ?cs s1))"
      by (rule frame_trans)
    with True s' show ?thesis by simp
  qed
qed


lemma ranked_frame: "frame l s s' \<Longrightarrow> ranked rank s \<Longrightarrow> ranked rank s'"
  unfolding ranked_def frame_def children_detached_def
  using same_fields_link_list by (metis UnE UnI1 UnI2 subsetD)

lemma for_of_returns:
  "(\<forall>c\<in>set cs. \<forall>s0. ranked rank s0 \<longrightarrow> (\<exists>r s1. body c s0 = Some (r, s1) \<and> ranked rank s1)) \<Longrightarrow>
   ranked rank s \<Longrightarrow> \<exists>s'. for_of body cs s = Some s'"
proof (induction cs arbitrary: s)
  case Nil
  show ?case by simp
next
  case (Cons c cs)
  from Cons.prems obtain r s1 where b: "body c s = Some (r, s1)" and rk: "ranked rank s1"
    by fastforce
  from Cons.prems(1) have "\<forall>c\<in>set cs. \<forall>s0. ranked rank s0 \<longrightarrow>
      (\<exists>r s1. body c s0 = Some (r, s1) \<and> ranked rank s1)"
    by simp
  from Cons.IH[OF this rk] b show ?case by simp
qed

lemma removeChildrenAndCleanupRecursively_returns:
  "ranked rank s \<Longrightarrow> rank obj < depth \<Longrightarrow>
     \<exists>r s'. removeChildrenAndCleanupRecursively depth l obj s = Some (r, s')"
proof (induction depth arbitrary: obj s)
  case 0
  then show ?case by simp
next
  case (Suc depth)
  let ?cs = "filter (in_layer s l) (children (nodes s obj)) @ link_list s obj"
  from Suc.prems(1) have "\<forall>c\<in>set (children (nodes s obj)) \<union> set (link_list s obj). rank c < rank obj"
    by (simp add: ranked_def)
  then have "\<forall>c\<in>set ?cs. rank c < rank obj" by auto
  with Suc.prems(2) have small: "\<forall>c\<in>set ?cs. rank c < depth" by fastforce
  have "\<forall>c\<in>set ?cs. \<forall>s0. ranked rank s0 \<longrightarrow>
      (\<exists>r s1. removeChildrenAndCleanupRecursively depth l c s0 = Some (r, s1) \<and> ranked rank s1)"
  proof (intro ballI allI impI)
    fix c s0
    assume c: "c \<in> set ?cs" and rk: "ranked rank s0"
    from small c have "rank c < depth" by blast
    from Suc.IH[OF rk this] obtain r s1 where
      run: "removeChildrenAndCleanupRecursively depth l c s0 = Some (r, s1)" by blast
    from removeChildrenAndCleanupRecursively_frame[OF run] rk have "ranked rank s1"
      by (rule ranked_frame)
    with run show "\<exists>r s1. removeChildrenAndCleanupRecursively depth l c s0 = Some (r, s1)
        \<and> ranked rank s1" by blast
  qed
  from for_of_returns[OF this Suc.prems(1)] obtain s1 where
    "for_of (removeChildrenAndCleanupRecursively depth l) ?cs s = Some s1" by blast
  then show ?case
    unfolding removeChildrenAndCleanupRecursively_Suc by simp
qed

lemma frame_layer_None: "frame l s s' \<Longrightarrow> layer (nodes s p) = None \<Longrightarrow> layer (nodes s' p) = None"
  unfolding frame_def layers_cleared_def by metis

lemma frame_cleared_called:
  "frame l s s' \<Longrightarrow> in_layer s l p \<Longrightarrow> layer (nodes s' p) = None \<Longrightarrow>
     \<exists>e\<in>set (new_calls s s'). on_node p e"
  unfolding frame_def layers_cleared_def using in_layer_has_layer by metis

lemma frame_in_layer_or_None:
  "frame l s s' \<Longrightarrow> in_layer s l p \<Longrightarrow> in_layer s' l p \<or> layer (nodes s' p) = None"
  unfolding frame_def layers_cleared_def using in_layer_same by metis

lemma removeChildrenAndCleanupRecursively_clears_self:
  assumes run: "removeChildrenAndCleanupRecursively depth l obj s = Some (r, s')"
    and inl: "in_layer s l obj"
  shows "layer (nodes s' obj) = None"
proof (cases depth)
  case 0
  with run show ?thesis by simp
next
  case (Suc k)
  let ?cs = "filter (in_layer s l) (children (nodes s obj)) @ link_list s obj"
  from run[unfolded Suc removeChildrenAndCleanupRecursively_Suc] obtain s1 where
    loop: "for_of (removeChildrenAndCleanupRecursively k l) ?cs s = Some s1" and
    s': "s' = (if in_layer s1 l obj then cleanup obj (object3d_remove obj ?cs s1)
              else object3d_remove obj ?cs s1)"
    by (auto split: option.splits)
  have f1: "frame l s s1"
    using loop by (rule for_of_frame[rotated]) (rule removeChildrenAndCleanupRecursively_frame)
  show ?thesis
  proof (cases "in_layer s1 l obj")
    case True
    with s' show ?thesis by (simp add: nodes_cleanup)
  next
    case False
    with frame_in_layer_or_None[OF f1 inl] have "layer (nodes s1 obj) = None" by simp
    with False s' show ?thesis by (simp add: object3d_remove_def)
  qed
qed

lemma for_of_clears:
  "for_of (removeChildrenAndCleanupRecursively depth l) cs s = Some s' \<Longrightarrow>
   c \<in> set cs \<Longrightarrow> in_layer s l c \<Longrightarrow> layer (nodes s' c) = None"
proof (induction cs arbitrary: s)
  case Nil
  then show ?case by simp
next
  case (Cons x xs)
  from Cons.prems(1) obtain r s1 where
    b: "removeChildrenAndCleanupRecursively depth l x s = Some (r, s1)" and
    rest: "for_of (removeChildrenAndCleanupRecursively depth l) xs s1 = Some s'"
    by (auto split: option.splits)
  have f1: "frame l s s1" using b by (rule removeChildrenAndCleanupRecursively_frame)
  have f2: "frame l s1 s'"
    using rest by (rule for_of_frame[rotated]) (rule removeChildrenAndCleanupRecursively_frame)
  show ?case
  proof (cases "layer (nodes s1 c) = None")
    case True
    with f2 show ?thesis by (rule frame_layer_None)
  next
    case False
    with frame_in_layer_or_None[OF f1 Cons.prems(3)] have inl1: "in_layer s1 l c" by simp
    have "c \<noteq> x"
    proof
      assume cx: "c = x"
      with Cons.prems(3) have "in_layer s l x" by simp
      from removeChildrenAndCleanupRecursively_clears_self[OF b this] cx False
      show False by simp
    qed
    with Cons.prems(2) have "c \<in> set xs" by simp
    from Cons.IH[OF rest this inl1] show ?thesis .
  qed
qed





lemma ranked_examples:
  "ranked example_rank linked_scene" "ranked example_rank link_child_scene"
  "ranked example_rank flat_scene"
  by (simp_all add: ranked_def link_list_def example_rank_def example_defs)

section \<open>removeChildrenAndCleanupRecursively\<close>

lemma new_calls_append:
  assumes "trace s1 = trace s @ a" "trace s' = trace s1 @ b"
  shows "new_calls s s' = new_calls s s1 @ b"
proof -
  from assms have "trace s' = trace s @ (a @ b)" by simp
  then have "new_calls s s' = a @ b" unfolding new_calls_def by simp
  moreover from assms(1) have "new_calls s s1 = a" unfolding new_calls_def by simp
  ultimately show ?thesis by simp
qed

lemma removeChildrenAndCleanupRecursively_unfold:
  assumes run: "removeChildrenAndCleanupRecursively depth l obj s = Some (r, s')"
  shows "r = filter (in_layer s l) (children (nodes s obj)) @ link_list s obj
      \<and> (\<exists>k s1. depth = Suc k
           \<and> for_of (removeChildrenAndCleanupRecursively k l) r s = Some s1
           \<and> s' = (if in_layer s1 l obj then cleanup obj (object3d_remove obj r s1)
                   else object3d_remove obj r s1)
           \<and> children (nodes s' obj) = fold remove1 r (children (nodes s1 obj))
           \<and> new_calls s s' = new_calls s s1 @ (if in_layer s1 l obj then cleanup_calls s obj else [])
           \<and> frame l s s1)"
proof -
  let ?cs = "filter (in_layer s l) (children (nodes s obj)) @ link_list s obj"
  from run obtain k where k: "depth = Suc k" by (cases depth) simp_all
  from run[unfolded k removeChildrenAndCleanupRecursively_Suc] obtain s1 where
    loop: "for_of (removeChildrenAndCleanupRecursively k l) ?cs s = Some s1" and
    r: "r = ?cs" and
    s': "s' = (if in_layer s1 l obj then cleanup obj (object3d_remove obj ?cs s1)
              else object3d_remove obj ?cs s1)"
    by (auto split: option.splits)
  have f1: "frame l s s1"
    using loop by (rule for_of_frame[rotated]) (rule removeChildrenAndCleanupRecursively_frame)
  have ch: "children (nodes s' obj) = fold remove1 r (children (nodes s1 obj))"
    unfolding s' r by (simp add: nodes_cleanup object3d_remove_def)
  have t1: "trace s1 = trace s @ new_calls s s1"
    using f1 calls_added_new_calls by (auto simp: frame_def)
  have cc: "cleanup_calls (object3d_remove obj ?cs s1) obj = cleanup_calls s obj"
    using f1 by (intro cleanup_calls_cong) (simp_all add: frame_def same_fields_def object3d_remove_def)
  have "trace s' = trace s1 @ (if in_layer s1 l obj then cleanup_calls s obj else [])"
    unfolding s' using cc by (simp add: trace_cleanup) (simp add: object3d_remove_def)
  with t1 have nc: "new_calls s s' = new_calls s s1 @ (if in_layer s1 l obj then cleanup_calls s obj else [])"
    by (rule new_calls_append)
  from loop r s' ch nc f1 k show ?thesis by blast
qed

lemma removeChildrenAndCleanupRecursively_clears_candidates:
  assumes run: "removeChildrenAndCleanupRecursively depth l obj s = Some (r, s')"
    and c: "c \<in> set r" and inl: "in_layer s l c"
  shows "layer (nodes s' c) = None \<and> (\<exists>e\<in>set (new_calls s s'). on_node c e)"
proof -
  from removeChildrenAndCleanupRecursively_unfold[OF run] obtain k s1 where
    loop: "for_of (removeChildrenAndCleanupRecursively k l) r s = Some s1" and
    s': "s' = (if in_layer s1 l obj then cleanup obj (object3d_remove obj r s1)
              else object3d_remove obj r s1)"
    by blast
  have f: "frame l s s'" using run by (rule removeChildrenAndCleanupRecursively_frame)
  from for_of_clears[OF loop c inl] have "layer (nodes s1 c) = None" .
  then have n: "layer (nodes s' c) = None"
    unfolding s' by (auto simp: nodes_cleanup object3d_remove_def)
  from frame_cleared_called[OF f inl n] n show ?thesis by simp
qed

text \<open>
  C1: a run of removeChildrenAndCleanupRecursively that returns has returned the
  candidates: the children whose layer has the id of the target layer, in their order,
  followed by every entry of the link list, whatever its layer. The run has first applied
  itself to each candidate in turn, from the store as it found it, then detached all the
  candidates from the children of the node in one call, then cleaned up the node exactly
  when it has a layer with the id of the target layer; the calls of the nested runs come
  before those of the cleanup of the node. Every candidate that was in the layer has been
  cleaned up. On a ranked scene a run with more stack depth than the rank of the node
  returns.
\<close>

theorem recursive_removal_steps:
  "(\<forall>depth r s'. removeChildrenAndCleanupRecursively depth l obj s = Some (r, s') \<longrightarrow>
      r = filter (in_layer s l) (children (nodes s obj)) @ link_list s obj
      \<and> (\<exists>k s1. depth = Suc k
           \<and> for_of (removeChildrenAndCleanupRecursively k l) r s = Some s1
           \<and> s' = (if in_layer s1 l obj then cleanup obj (object3d_remove obj r s1)
                   else object3d_remove obj r s1)
           \<and> children (nodes s' obj) = fold remove1 r (children (nodes s1 obj))
           \<and> new_calls s s' = new_calls s s1 @ (if in_layer s1 l obj then cleanup_calls s obj else []))
      \<and> (\<forall>c\<in>set r. in_layer s l c \<longrightarrow>
            layer (nodes s' c) = None \<and> (\<exists>e\<in>set (new_calls s s'). on_node c e)))
   \<and> (ranked rank s \<and> rank obj < fuel \<longrightarrow>
        (\<exists>r s'. removeChildrenAndCleanupRecursively fuel l obj s = Some (r, s')))"
proof (intro conjI allI impI)
  fix depth r s'
  assume run: "removeChildrenAndCleanupRecursively depth l obj s = Some (r, s')"
  from removeChildrenAndCleanupRecursively_unfold[OF run]
  show "r = filter (in_layer s l) (children (nodes s obj)) @ link_list s obj" by blast
  from removeChildrenAndCleanupRecursively_unfold[OF run]
  show "\<exists>k s1. depth = Suc k
           \<and> for_of (removeChildrenAndCleanupRecursively k l) r s = Some s1
           \<and> s' = (if in_layer s1 l obj then cleanup obj (object3d_remove obj r s1)
                   else object3d_remove obj r s1)
           \<and> children (nodes s' obj) = fold remove1 r (children (nodes s1 obj))
           \<and> new_calls s s' = new_calls s s1 @ (if in_layer s1 l obj then cleanup_calls s obj else [])"
    by blast
  from removeChildrenAndCleanupRecursively_clears_candidates[OF run]
  show "\<forall>c\<in>set r. in_layer s l c \<longrightarrow>
            layer (nodes s' c) = None \<and> (\<exists>e\<in>set (new_calls s s'). on_node c e)"
    by blast
next
  assume "ranked rank s \<and> rank obj < fuel"
  then show "\<exists>r s'. removeChildrenAndCleanupRecursively fuel l obj s = Some (r, s')"
    using removeChildrenAndCleanupRecursively_returns by blast
qed

theorem recursive_removal_steps_witness:
  "ranked example_rank linked_scene \<and> example_rank 0 < 3
   \<and> layer (nodes linked_scene 1) = Some 1
   \<and> layer_id (layers linked_scene 3) = layer_id (layers linked_scene 1)
   \<and> (\<exists>s'. removeChildrenAndCleanupRecursively 3 3 0 linked_scene = Some ([1], s')
         \<and> layer (nodes s' 1) = None)"
proof -
  have rk: "ranked example_rank linked_scene \<and> example_rank 0 < 3"
    by (simp add: ranked_examples example_rank_def)
  note t = recursive_removal_steps
    [where l = 3 and obj = 0 and s = linked_scene and rank = example_rank and fuel = 3]
  from t rk obtain r s' where
    run: "removeChildrenAndCleanupRecursively 3 3 0 linked_scene = Some (r, s')" by blast
  have cs: "filter (in_layer linked_scene 3) (children (nodes linked_scene 0))
      @ link_list linked_scene 0 = [1]"
    by (simp add: in_layer_def link_list_def example_defs)
  have inl: "in_layer linked_scene 3 1"
    by (simp add: in_layer_def example_defs)
  note u = t [THEN conjunct1, rule_format, OF run]
  from u have "r = filter (in_layer linked_scene 3) (children (nodes linked_scene 0))
      @ link_list linked_scene 0" by (rule conjunct1)
  with cs have r: "r = [1]" by simp
  from r have "1 \<in> set r" by simp
  from u [THEN conjunct2, THEN conjunct2, rule_format, OF this inl]
  have n: "layer (nodes s' 1) = None" by (rule conjunct1)
  have a: "layer (nodes linked_scene 1) = Some 1"
    "layer_id (layers linked_scene 3) = layer_id (layers linked_scene 1)"
    by (simp_all add: example_defs)
  from rk a run r n show ?thesis by blast
qed

section \<open>Nodes of other layers\<close>



















section \<open>The link list\<close>





section \<open>A cycle of links\<close>

lemma for_of_None:
  assumes body: "\<And>c s0 r s1. body c s0 = Some (r, s1) \<Longrightarrow> frame l s0 s1"
  shows "c \<in> set cs \<Longrightarrow> (\<And>s0. frame l s s0 \<Longrightarrow> body c s0 = None) \<Longrightarrow> for_of body cs s = None"
proof (induction cs arbitrary: s)
  case Nil
  then show ?case by simp
next
  case (Cons x xs)
  show ?case
  proof (cases "body x s")
    case None
    then show ?thesis by simp
  next
    case (Some p)
    obtain r s1 where p: "p = (r, s1)" by (cases p)
    with Some have b: "body x s = Some (r, s1)" by simp
    have "x \<noteq> c" using Cons.prems(2)[OF frame_refl] b by auto
    with Cons.prems(1) have cin: "c \<in> set xs" by simp
    have "for_of body xs s1 = None"
    proof (rule Cons.IH[OF cin])
      fix s0
      assume "frame l s1 s0"
      with body[OF b] have "frame l s s0" by (rule frame_trans)
      then show "body c s0 = None" by (rule Cons.prems(2))
    qed
    with b show ?thesis by simp
  qed
qed

text \<open>
  A node that is an entry of its own link list is a candidate of itself at every depth:
  the run on it returns with no depth of stack. The rank of the theorems above is needed.
\<close>

lemma self_link_overflows:
  "obj \<in> set (link_list s obj) \<Longrightarrow> removeChildrenAndCleanupRecursively depth l obj s = None"
proof (induction depth arbitrary: s)
  case 0
  show ?case by simp
next
  case (Suc depth)
  let ?cs = "filter (in_layer s l) (children (nodes s obj)) @ link_list s obj"
  have "for_of (removeChildrenAndCleanupRecursively depth l) ?cs s = None"
  proof (rule for_of_None[where c = obj and l = l])
    show "frame l s0 s1" if "removeChildrenAndCleanupRecursively depth l c s0 = Some (r, s1)"
      for c s0 r s1
      using that by (rule removeChildrenAndCleanupRecursively_frame)
    show "obj \<in> set ?cs" using Suc.prems by simp
    show "removeChildrenAndCleanupRecursively depth l obj s0 = None" if "frame l s s0" for s0
    proof (rule Suc.IH)
      from that have "link_list s0 obj = link_list s obj"
        by (simp add: frame_def same_fields_link_list)
      with Suc.prems show "obj \<in> set (link_list s0 obj)" by simp
    qed
  qed
  then show ?case unfolding removeChildrenAndCleanupRecursively_Suc by simp
qed

end
